theory Spec2Isabelle
  imports Main
begin

section \<open>Variable expansion\<close>

text \<open>
  A keyword value as \<open>expandvars\<close> tells it apart with \<open>isinstance(value, str)\<close>:
  a string, or anything else, which \<open>list.extend\<close> then iterates; the second kind is
  represented by the list of strings the iteration yields. Strings are lists of
  characters with code points below 256.
\<close>

datatype val = Str string | Seq "string list"

type_synonym kwargs = "string \<rightharpoonup> val"

text \<open>\<open>word.startswith(prefix)\<close>\<close>

definition startswith :: "string \<Rightarrow> string \<Rightarrow> bool" where
  "startswith word pre = (take (length pre) word = pre)"

text \<open>\<open>kwargs.get(key, default)\<close>\<close>

definition get :: "kwargs \<Rightarrow> string \<Rightarrow> val \<Rightarrow> val" where
  "get kw key dflt = (case kw key of None \<Rightarrow> dflt | Some v \<Rightarrow> v)"

text \<open>
  The \<open>for word in words\<close> loop of \<open>expandvars\<close>; the third argument is the list
  \<open>newwords\<close> built so far.
\<close>

fun expandvars_loop :: "string list \<Rightarrow> kwargs \<Rightarrow> string list \<Rightarrow> string list" where
  "expandvars_loop [] kw newwords = newwords"
| "expandvars_loop (word # words) kw newwords =
     (if startswith word ''$'' then
        (case get kw (drop 1 word) (Str '''') of
           Str s \<Rightarrow> expandvars_loop words kw (newwords @ [s])
         | Seq vs \<Rightarrow> expandvars_loop words kw (newwords @ vs))
      else expandvars_loop words kw (newwords @ [word]))"

definition expandvars :: "string list \<Rightarrow> kwargs \<Rightarrow> string list" where
  "expandvars words kw = expandvars_loop words kw []"

section \<open>Splitting the pipeline string\<close>

text \<open>
  \<open>pipeline.split("|")\<close>: the pieces between the separators, in order; a string
  without separator is its own single piece, and the empty string gives one empty piece.
  The second argument of the scan is the piece read so far.
\<close>

fun str_split_scan :: "char \<Rightarrow> string \<Rightarrow> string \<Rightarrow> string list" where
  "str_split_scan sep cur [] = [cur]"
| "str_split_scan sep cur (c # cs) =
     (if c = sep then cur # str_split_scan sep [] cs
      else str_split_scan sep (cur @ [c]) cs)"

definition str_split :: "string \<Rightarrow> char \<Rightarrow> string list" where
  "str_split s sep = str_split_scan sep [] s"

text \<open>
  \<open>str.isspace\<close> on the code points below 256: tab, line feed, vertical tab, form
  feed, carriage return, the four separators 0x1C to 0x1F, space, next line (0x85) and
  no-break space (0xA0).
\<close>

definition isspace :: "char \<Rightarrow> bool" where
  "isspace c = (c \<in> set [CHR 0x09, CHR 0x0A, CHR 0x0B, CHR 0x0C, CHR 0x0D,
                          CHR 0x1C, CHR 0x1D, CHR 0x1E, CHR 0x1F, CHR 0x20,
                          CHR 0x85, CHR 0xA0])"

text \<open>
  \<open>command.split()\<close>: the maximal runs of non-whitespace characters, in order; no
  empty word is ever produced.
\<close>

fun split_words_scan :: "string \<Rightarrow> string \<Rightarrow> string list" where
  "split_words_scan cur [] = (if cur = [] then [] else [cur])"
| "split_words_scan cur (c # cs) =
     (if isspace c then (if cur = [] then [] else [cur]) @ split_words_scan [] cs
      else split_words_scan (cur @ [c]) cs)"

definition split_words :: "string \<Rightarrow> string list" where
  "split_words command = split_words_scan [] command"

text \<open>\<open>enumerate(xs)\<close>\<close>

definition enumerate_list :: "'a list \<Rightarrow> (nat \<times> 'a) list" where
  "enumerate_list xs = zip [0..<length xs] xs"

section \<open>Processes\<close>

text \<open>
  The two exceptions of the model: \<open>IndexError\<close>, raised by indexing an empty
  list, and \<open>OSError\<close>, raised by \<open>Popen\<close> when the process cannot be created.
\<close>

datatype error = IndexError | OSError

text \<open>
  The file objects \<open>Popen\<close> hands to its caller: the writable end of the pipe
  feeding a process's standard input and the readable end of the pipe fed by its standard
  output. Processes are named by the order in which \<open>sh\<close> creates them.
\<close>

datatype stream = StdinPipe nat | StdoutPipe nat

text \<open>
  The values given as \<open>stdin=\<close> and \<open>stdout=\<close>: \<open>None\<close> (inherit the caller's
  stream), \<open>PIPE\<close> (create a pipe), or an existing file object.
\<close>

datatype redirect = Inherit | PIPE | File stream

text \<open>
  A \<open>Popen\<close> object: the arguments it was created with, its attributes \<open>stdin\<close>
  and \<open>stdout\<close> (a file object exactly when \<open>PIPE\<close> was asked for, otherwise
  \<open>None\<close>) and \<open>returncode\<close> (\<open>None\<close> as long as the process has not been
  waited for).
\<close>

record proc =
  pid :: nat
  args :: "string list"
  stdin_arg :: redirect
  stdout_arg :: redirect
  cwd :: "val option"
  env :: "val option"
  proc_stdin :: "stream option"
  proc_stdout :: "stream option"
  returncode :: "int option"

text \<open>
  The operating system, as far as \<open>sh\<close> depends on it: whether creating a given
  process succeeds, and the exit status a created process ends with. Every created
  process is taken to end, so that waiting for it returns.
\<close>

record os =
  spawn_ok :: "proc \<Rightarrow> bool"
  exit_status :: "proc \<Rightarrow> int"

text \<open>
  \<open>Popen(words, stdin=..., stdout=..., cwd=..., env=...)\<close>; the first number is the
  name of the new process.
\<close>

definition Popen ::
  "os \<Rightarrow> nat \<Rightarrow> string list \<Rightarrow> redirect \<Rightarrow> redirect \<Rightarrow> val option \<Rightarrow> val option
     \<Rightarrow> error + proc" where
  "Popen w n words stdin stdout dir envir =
     (let p = \<lparr>pid = n, args = words, stdin_arg = stdin, stdout_arg = stdout,
                cwd = dir, env = envir,
                proc_stdin = (if stdin = PIPE then Some (StdinPipe n) else None),
                proc_stdout = (if stdout = PIPE then Some (StdoutPipe n) else None),
                returncode = None\<rparr>
      in if spawn_ok w p then Inr p else Inl OSError)"

text \<open>
  \<open>proc.wait()\<close>: a process whose \<open>returncode\<close> is already set is not waited for
  again; otherwise the caller blocks until the process ends, and its exit status is
  stored. The list is the log of the processes the operating system was asked to wait
  for, in order.
\<close>

definition proc_wait :: "os \<Rightarrow> proc \<Rightarrow> nat list \<Rightarrow> proc \<times> nat list" where
  "proc_wait w p waited =
     (case returncode p of
        Some rc \<Rightarrow> (p, waited)
      | None \<Rightarrow> (p\<lparr>returncode := Some (exit_status w p)\<rparr>, waited @ [pid p]))"

text \<open>The loop \<open>for proc in procs: proc.wait()\<close>.\<close>

fun wait_procs :: "os \<Rightarrow> proc list \<Rightarrow> nat list \<Rightarrow> proc list \<times> nat list" where
  "wait_procs w [] waited = ([], waited)"
| "wait_procs w (p # ps) waited =
     (case proc_wait w p waited of
        (p', waited') \<Rightarrow>
          (case wait_procs w ps waited' of
             (ps', waited'') \<Rightarrow> (p' # ps', waited'')))"

section \<open>Building the pipeline\<close>

text \<open>
  The local variables of \<open>sh\<close> that live across iterations of its loop, and the lines
  printed on the standard error stream so far.
\<close>

record sh_state =
  sh_procs :: "proc list"
  headpipe :: bool
  tailpipe :: bool
  stderr :: "string list"

definition warning :: string where
  "warning = ''WARNING: SystemHeaven interprets consecutive pipes (||) as a single one''"

text \<open>\<open>stdin = procs[-1].stdout\<close>, used as the \<open>stdin=\<close> argument of the next process.\<close>

definition as_redirect :: "stream option \<Rightarrow> redirect" where
  "as_redirect f = (case f of None \<Rightarrow> Inherit | Some s \<Rightarrow> File s)"

text \<open>
  One iteration of the loop of \<open>sh\<close>, for the command at index \<open>i\<close> out of
  \<open>n = len(commands)\<close>.
\<close>

definition sh_step :: "os \<Rightarrow> kwargs \<Rightarrow> nat \<Rightarrow> nat \<Rightarrow> string \<Rightarrow> sh_state \<Rightarrow> error + sh_state" where
  "sh_step w kw n i command st =
     (let words = split_words command in
      if length words = 0 then
        (if i = 0 then Inr (st\<lparr>headpipe := True\<rparr>)
         else if i = n - 1 then Inr (st\<lparr>tailpipe := True\<rparr>)
         else Inr (st\<lparr>stderr := stderr st @ [warning]\<rparr>))
      else
        (let words = expandvars words kw;
             stdout = Inherit;
             stdin = Inherit;
             stdin = (if headpipe st \<and> length (sh_procs st) = 0 then PIPE else stdin);
             stdin = (if length (sh_procs st) > 0
                      then as_redirect (proc_stdout (last (sh_procs st))) else stdin);
             stdout = (if i < n - 1 then PIPE else stdout)
         in case Popen w (length (sh_procs st)) words stdin stdout (kw ''_cwd'') (kw ''_env'') of
              Inl e \<Rightarrow> Inl e
            | Inr p \<Rightarrow> Inr (st\<lparr>sh_procs := sh_procs st @ [p]\<rparr>)))"

text \<open>The loop \<open>for i, command in enumerate(commands)\<close>; an exception ends it.\<close>

fun sh_loop :: "os \<Rightarrow> kwargs \<Rightarrow> nat \<Rightarrow> (nat \<times> string) list \<Rightarrow> sh_state \<Rightarrow> error + sh_state" where
  "sh_loop w kw n [] st = Inr st"
| "sh_loop w kw n ((i, command) # rest) st =
     (case sh_step w kw n i command st of
        Inl e \<Rightarrow> Inl e
      | Inr st' \<Rightarrow> sh_loop w kw n rest st')"

text \<open>The state of \<open>sh\<close> when its loop has ended.\<close>

definition sh_build :: "os \<Rightarrow> string \<Rightarrow> kwargs \<Rightarrow> error + sh_state" where
  "sh_build w pipeline kw =
     (let commands = str_split pipeline CHR ''|''
      in sh_loop w kw (length commands) (enumerate_list commands)
           \<lparr>sh_procs = [], headpipe = False, tailpipe = False, stderr = []\<rparr>)"

section \<open>The pipeline object\<close>

record pipeline =
  procs :: "proc list"
  stdin :: "stream option"
  stdout :: "stream option"

text \<open>\<open>Pipeline.__init__\<close>: \<open>procs[0]\<close> and \<open>procs[-1]\<close> raise on the empty list.\<close>

definition Pipeline :: "proc list \<Rightarrow> error + pipeline" where
  "Pipeline ps =
     (if ps = [] then Inl IndexError
      else Inr \<lparr>procs = ps, stdin = proc_stdin (ps ! 0), stdout = proc_stdout (last ps)\<rparr>)"

text \<open>The property \<open>Pipeline.returncode\<close>.\<close>

definition pipeline_returncode :: "pipeline \<Rightarrow> error + int option" where
  "pipeline_returncode self =
     (if procs self = [] then Inl IndexError else Inr (returncode (last (procs self))))"

text \<open>
  \<open>Pipeline.wait\<close> and the property \<open>Pipeline.ok\<close>. Both change the processes of
  the pipeline, so they return the pipeline and the log of waits along with their value.
\<close>

definition wait ::
  "os \<Rightarrow> pipeline \<Rightarrow> nat list \<Rightarrow> (error + int option) \<times> pipeline \<times> nat list" where
  "wait w self waited =
     (case wait_procs w (procs self) waited of
        (ps, waited') \<Rightarrow>
          (let self' = self\<lparr>procs := ps\<rparr> in (pipeline_returncode self', self', waited')))"

definition ok :: "os \<Rightarrow> pipeline \<Rightarrow> nat list \<Rightarrow> (error + bool) \<times> pipeline \<times> nat list" where
  "ok w self waited =
     (case wait w self waited of
        (Inl e, self', waited') \<Rightarrow> (Inl e, self', waited')
      | (Inr ret, self', waited') \<Rightarrow> (Inr (ret = Some 0), self', waited'))"

section \<open>The function sh\<close>

text \<open>
  What \<open>sh\<close> returns, the \<open>returncode\<close> of the last process or a pipeline object,
  together with what it has printed on the standard error stream and the processes it has
  waited for. When \<open>sh\<close> raises, the model keeps the exception only.
\<close>

datatype retval = ExitCode "int option" | Handle pipeline

record outcome =
  retval :: retval
  printed :: "string list"
  waited_for :: "nat list"

definition sh :: "os \<Rightarrow> string \<Rightarrow> kwargs \<Rightarrow> error + outcome" where
  "sh w pipeline kw =
     (case sh_build w pipeline kw of
        Inl e \<Rightarrow> Inl e
      | Inr st \<Rightarrow>
          if headpipe st \<or> tailpipe st then
            (case Pipeline (sh_procs st) of
               Inl e \<Rightarrow> Inl e
             | Inr h \<Rightarrow> Inr \<lparr>retval = Handle h, printed = stderr st, waited_for = []\<rparr>)
          else
            (case wait_procs w (sh_procs st) [] of
               (ps, waited) \<Rightarrow>
                 if ps = [] then Inl IndexError
                 else Inr \<lparr>retval = ExitCode (returncode (last ps)),
                           printed = stderr st, waited_for = waited\<rparr>))"

text \<open>
  An operating system for the examples: a process is created unless its argument list
  is empty, the command \<open>true\<close> exits with 0 and every other command with 1.
\<close>

definition example_os :: os where
  "example_os =
     \<lparr>spawn_ok = (\<lambda>p. args p \<noteq> []),
      exit_status = (\<lambda>p. if args p = [''true''] then 0 else 1)\<rparr>"

section \<open>Shape of the state during the loop\<close>

text \<open>
  What holds of the state of \<open>sh\<close> when the commands before index \<open>i\<close> out of
  \<open>n\<close> have been handled, where \<open>H\<close> says that the first command has no word and
  \<open>L\<close> that the last command has one: the flags, and for the \<open>k\<close>-th process its
  name and how its streams were asked for.
\<close>

definition shape :: "nat \<Rightarrow> bool \<Rightarrow> bool \<Rightarrow> nat \<Rightarrow> sh_state \<Rightarrow> bool" where
  "shape n H L i st =
     ((i = 0 \<longrightarrow> sh_procs st = []) \<and>
      headpipe st = (0 < i \<and> H) \<and>
      tailpipe st = (i = n \<and> 1 < n \<and> \<not> L) \<and>
      (\<forall>k<length (sh_procs st).
         pid (sh_procs st ! k) = k \<and>
         returncode (sh_procs st ! k) = None \<and>
         stdin_arg (sh_procs st ! k) =
           (if k = 0 then (if H then PIPE else Inherit) else File (StdoutPipe (k - 1))) \<and>
         proc_stdin (sh_procs st ! k) = (if k = 0 \<and> H then Some (StdinPipe 0) else None) \<and>
         stdout_arg (sh_procs st ! k) =
           (if Suc k = length (sh_procs st) \<and> i = n \<and> L then Inherit else PIPE) \<and>
         proc_stdout (sh_procs st ! k) =
           (if Suc k = length (sh_procs st) \<and> i = n \<and> L then None else Some (StdoutPipe k))))"

text \<open>
  Two states of the loop that differ only in that the first has printed one more
  warning than the second.
\<close>

definition ahead :: "sh_state \<Rightarrow> sh_state \<Rightarrow> bool" where
  "ahead st st0 =
     (sh_procs st = sh_procs st0 \<and> headpipe st = headpipe st0 \<and> tailpipe st = tailpipe st0 \<and>
      stderr st = stderr st0 @ [warning])"

section \<open>Properties of the expansion\<close>

lemma startswith_dollar: "startswith word ''$'' = (\<exists>rest. word = CHR ''$'' # rest)"
  by (cases word) (auto simp: startswith_def)

text \<open>What one word contributes to the output, independently of the words before it.\<close>

lemma expandvars_loop_acc:
  "expandvars_loop words kw newwords = newwords @ expandvars_loop words kw []"
proof (induction words arbitrary: newwords)
  case Nil
  show ?case by simp
next
  case (Cons word words)
  have step: "\<And>xs. expandvars_loop words kw xs = xs @ expandvars_loop words kw []"
    by (rule Cons.IH)
  show ?case
  proof (cases "startswith word ''$''")
    case False
    then show ?thesis
      using step [of "newwords @ [word]"] step [of "[word]"] by simp
  next
    case True
    show ?thesis
    proof (cases "get kw (drop 1 word) (Str '''')")
      case (Str s)
      with True show ?thesis
        using step [of "newwords @ [s]"] step [of "[s]"] by simp
    next
      case (Seq vs)
      with True show ?thesis
        using step [of "newwords @ vs"] step [of vs] by simp
    qed
  qed
qed

lemma expandvars_Nil: "expandvars [] kw = []"
  by (simp add: expandvars_def)

lemma expandvars_Cons:
  "expandvars (word # words) kw =
     (if startswith word ''$'' then
        (case kw (drop 1 word) of
           None \<Rightarrow> ['''']
         | Some (Str s) \<Rightarrow> [s]
         | Some (Seq vs) \<Rightarrow> vs)
      else [word]) @ expandvars words kw"
proof -
  have acc: "\<And>xs. expandvars_loop words kw xs = xs @ expandvars words kw"
    unfolding expandvars_def by (rule expandvars_loop_acc)
  show ?thesis
    by (simp add: expandvars_def [of "word # words"] acc get_def
             split: option.split val.split)
qed

text \<open>
  C1. For every list of words and every keyword map, \<open>expandvars\<close> returns the
  concatenation, in order, of what each word stands for: a word starting with \<open>$\<close>
  whose remainder is bound to a string gives exactly that one string (also when it is
  empty), one bound to a sequence gives all elements of the sequence, one whose
  remainder is not bound gives exactly one empty string, and any other word gives
  itself.
\<close>

theorem expandvars_spec:
  "expandvars words kw =
     concat (map (\<lambda>word.
        if startswith word ''$'' then
          (case kw (drop 1 word) of
             None \<Rightarrow> ['''']
           | Some (Str s) \<Rightarrow> [s]
           | Some (Seq vs) \<Rightarrow> vs)
        else [word]) words)"
proof (induction words)
  case Nil
  show ?case by (simp add: expandvars_Nil)
next
  case (Cons word words)
  then show ?case by (simp only: expandvars_Cons list.map concat.simps)
qed

text \<open>
  C10. The word \<open>$\<close> alone refers to the variable named by the empty string: its
  expansion is the string bound to \<open>''''\<close>, or the elements of the sequence bound to
  it, or one empty string when \<open>''''\<close> is not bound.
\<close>

theorem expandvars_lone_dollar:
  "expandvars [''$''] kw =
     (case kw '''' of
        None \<Rightarrow> ['''']
      | Some (Str s) \<Rightarrow> [s]
      | Some (Seq vs) \<Rightarrow> vs)"
  by (simp add: expandvars_Cons expandvars_Nil startswith_def)

section \<open>Properties of the splitting and of the loop\<close>

lemma str_split_scan_not_Nil: "str_split_scan sep cur s \<noteq> []"
  by (induction s arbitrary: cur) auto

lemma str_split_scan_no_sep: "sep \<notin> set s \<Longrightarrow> str_split_scan sep cur s = [cur @ s]"
  by (induction s arbitrary: cur) auto

lemma str_split_scan_append:
  "str_split_scan sep cur (a @ sep # b) = str_split_scan sep cur a @ str_split_scan sep [] b"
  by (induction a arbitrary: cur) auto

lemma str_split_not_Nil: "str_split s sep \<noteq> []"
  by (simp add: str_split_def str_split_scan_not_Nil)

lemma str_split_append: "str_split (a @ sep # b) sep = str_split a sep @ str_split b sep"
  by (simp add: str_split_def str_split_scan_append)

lemma str_split_no_sep: "sep \<notin> set s \<Longrightarrow> str_split s sep = [s]"
  by (simp add: str_split_def str_split_scan_no_sep)

lemma sh_step_empty:
  "split_words command = [] \<Longrightarrow>
   sh_step w kw n i command st =
     Inr (if i = 0 then st\<lparr>headpipe := True\<rparr>
          else if i = n - 1 then st\<lparr>tailpipe := True\<rparr>
          else st\<lparr>stderr := stderr st @ [warning]\<rparr>)"
  by (simp add: sh_step_def)

lemma sh_step_spawn:
  "split_words command \<noteq> [] \<Longrightarrow>
   sh_step w kw n i command st =
     (case Popen w (length (sh_procs st)) (expandvars (split_words command) kw)
             (if sh_procs st \<noteq> [] then as_redirect (proc_stdout (last (sh_procs st)))
              else if headpipe st then PIPE else Inherit)
             (if i < n - 1 then PIPE else Inherit) (kw ''_cwd'') (kw ''_env'') of
        Inl e \<Rightarrow> Inl e
      | Inr p \<Rightarrow> Inr (st\<lparr>sh_procs := sh_procs st @ [p]\<rparr>))"
  by (simp add: sh_step_def Let_def)

lemma Popen_Inr:
  "Popen w k words rin rout dir envir = Inr p \<Longrightarrow>
   p = \<lparr>pid = k, args = words, stdin_arg = rin, stdout_arg = rout, cwd = dir, env = envir,
        proc_stdin = (if rin = PIPE then Some (StdinPipe k) else None),
        proc_stdout = (if rout = PIPE then Some (StdoutPipe k) else None),
        returncode = None\<rparr>"
  by (simp add: Popen_def Let_def split: if_splits)

lemma Popen_Inl: "Popen w k words rin rout dir envir = Inl e \<Longrightarrow> e = OSError"
  by (simp add: Popen_def Let_def split: if_splits)

lemma enumerate_from_Cons:
  "zip [i..<i + length (c # cs)] (c # cs) = (i, c) # zip [Suc i..<Suc i + length cs] cs"
proof -
  have "[i..<i + length (c # cs)] = i # [Suc i..<Suc i + length cs]"
    by (subst upt_rec) (simp del: upt_Suc)
  then show ?thesis by (simp only: zip_Cons_Cons)
qed

lemma sh_loop_Cons:
  "sh_loop w kw n (zip [i..<i + length (c # cs)] (c # cs)) st =
     (case sh_step w kw n i c st of
        Inl e \<Rightarrow> Inl e
      | Inr st' \<Rightarrow> sh_loop w kw n (zip [Suc i..<Suc i + length cs] cs) st')"
  by (simp only: enumerate_from_Cons sh_loop.simps)

lemma sh_build_loop:
  "sh_build w pipeline kw =
     sh_loop w kw (length (str_split pipeline CHR ''|''))
       (zip [0..<0 + length (str_split pipeline CHR ''|'')] (str_split pipeline CHR ''|''))
       \<lparr>sh_procs = [], headpipe = False, tailpipe = False, stderr = []\<rparr>"
  by (simp add: sh_build_def enumerate_list_def Let_def)

lemma sh_step_args:
  "sh_step w kw n i c st = Inr st' \<Longrightarrow>
   map args (sh_procs st') =
     map args (sh_procs st) @ (if split_words c = [] then [] else [expandvars (split_words c) kw])"
  by (cases "split_words c = []")
     (auto simp: sh_step_empty sh_step_spawn split: sum.splits dest!: Popen_Inr)

lemma sh_loop_args:
  "sh_loop w kw n (zip [i..<i + length cs] cs) st = Inr st' \<Longrightarrow>
   map args (sh_procs st') =
     map args (sh_procs st) @
     map (\<lambda>c. expandvars (split_words c) kw) (filter (\<lambda>c. split_words c \<noteq> []) cs)"
proof (induction cs arbitrary: i st)
  case Nil
  then show ?case by simp
next
  case (Cons c cs)
  from Cons.prems obtain st1 where
    s1: "sh_step w kw n i c st = Inr st1" and
    l1: "sh_loop w kw n (zip [Suc i..<Suc i + length cs] cs) st1 = Inr st'"
    by (auto simp only: sh_loop_Cons split: sum.splits)
  show ?case
    using Cons.IH [OF l1] sh_step_args [OF s1] by simp
qed

lemma sh_step_stderr:
  "sh_step w kw n i c st = Inr st' \<Longrightarrow>
   stderr st' =
     stderr st @ (if split_words c = [] \<and> i \<noteq> 0 \<and> i \<noteq> n - 1 then [warning] else [])"
  by (cases "split_words c = []")
     (auto simp: sh_step_empty sh_step_spawn split: sum.splits)

lemma sh_loop_stderr:
  "sh_loop w kw n (zip [i..<i + length cs] cs) st = Inr st' \<Longrightarrow>
   stderr st' =
     stderr st @
     replicate (length (filter (\<lambda>(j, c). split_words c = [] \<and> j \<noteq> 0 \<and> j \<noteq> n - 1)
                          (zip [i..<i + length cs] cs))) warning"
proof (induction cs arbitrary: i st)
  case Nil
  then show ?case by simp
next
  case (Cons c cs)
  from Cons.prems obtain st1 where
    s1: "sh_step w kw n i c st = Inr st1" and
    l1: "sh_loop w kw n (zip [Suc i..<Suc i + length cs] cs) st1 = Inr st'"
    by (auto simp only: sh_loop_Cons split: sum.splits)
  show ?case
    using Cons.IH [OF l1] sh_step_stderr [OF s1]
    by (simp only: enumerate_from_Cons) (simp add: replicate_app_Cons_same)
qed

lemma shape_initial:
  "shape n H L 0 \<lparr>sh_procs = [], headpipe = False, tailpipe = False, stderr = []\<rparr>"
  by (simp add: shape_def)

lemma shape_step_empty:
  assumes sh: "shape n H L i st" and i: "i < n"
    and c: "split_words c = []"
    and H: "i = 0 \<Longrightarrow> H" and L: "Suc i = n \<Longrightarrow> \<not> L"
    and step: "sh_step w kw n i c st = Inr st'"
  shows "shape n H L (Suc i) st'"
proof -
  have st': "st' = (if i = 0 then st\<lparr>headpipe := True\<rparr>
                   else if i = n - 1 then st\<lparr>tailpipe := True\<rparr>
                   else st\<lparr>stderr := stderr st @ [warning]\<rparr>)"
    using step c by (simp add: sh_step_empty)
  have procs: "sh_procs st' = sh_procs st"
    using st' by simp
  have head: "headpipe st' = H"
    using st' sh H by (auto simp: shape_def)
  have tail: "tailpipe st' = (Suc i = n \<and> 1 < n \<and> \<not> L)"
    using st' sh i L by (auto simp: shape_def)
  have each: "\<forall>k<length (sh_procs st).
         pid (sh_procs st ! k) = k \<and>
         returncode (sh_procs st ! k) = None \<and>
         stdin_arg (sh_procs st ! k) =
           (if k = 0 then (if H then PIPE else Inherit) else File (StdoutPipe (k - 1))) \<and>
         proc_stdin (sh_procs st ! k) = (if k = 0 \<and> H then Some (StdinPipe 0) else None) \<and>
         stdout_arg (sh_procs st ! k) = PIPE \<and>
         proc_stdout (sh_procs st ! k) = Some (StdoutPipe k)"
    using sh i by (simp add: shape_def)
  show ?thesis
    unfolding shape_def procs using head tail each L by auto
qed

lemma shape_step_spawn:
  assumes sh: "shape n H L i st" and i: "i < n"
    and c: "split_words c \<noteq> []"
    and H: "i = 0 \<Longrightarrow> \<not> H" and L: "Suc i = n \<Longrightarrow> L"
    and step: "sh_step w kw n i c st = Inr st'"
  shows "shape n H L (Suc i) st'"
proof -
  let ?ps = "sh_procs st"
  let ?rin = "if ?ps \<noteq> [] then as_redirect (proc_stdout (last ?ps))
              else if headpipe st then PIPE else Inherit"
  let ?rout = "if i < n - 1 then PIPE else Inherit"
  from step c obtain p where
    pop: "Popen w (length ?ps) (expandvars (split_words c) kw) ?rin ?rout (kw ''_cwd'') (kw ''_env'') = Inr p"
    and st': "st' = st\<lparr>sh_procs := ?ps @ [p]\<rparr>"
    by (auto simp: sh_step_spawn split: sum.splits)
  have each: "\<forall>k<length ?ps.
         pid (?ps ! k) = k \<and>
         returncode (?ps ! k) = None \<and>
         stdin_arg (?ps ! k) =
           (if k = 0 then (if H then PIPE else Inherit) else File (StdoutPipe (k - 1))) \<and>
         proc_stdin (?ps ! k) = (if k = 0 \<and> H then Some (StdinPipe 0) else None) \<and>
         stdout_arg (?ps ! k) = PIPE \<and>
         proc_stdout (?ps ! k) = Some (StdoutPipe k)"
    using sh i by (simp add: shape_def)
  have rin: "?rin = (if ?ps = [] then (if H then PIPE else Inherit)
                     else File (StdoutPipe (length ?ps - 1)))"
  proof (cases "?ps = []")
    case True
    then show ?thesis using sh H by (auto simp: shape_def)
  next
    case False
    then have "last ?ps = ?ps ! (length ?ps - 1)" by (simp add: last_conv_nth)
    moreover have "length ?ps - 1 < length ?ps" using False by simp
    ultimately have "proc_stdout (last ?ps) = Some (StdoutPipe (length ?ps - 1))"
      using each by simp
    then show ?thesis using False by (simp add: as_redirect_def)
  qed
  have rout: "?rout = (if Suc i = n \<and> L then Inherit else PIPE)"
  proof (cases "Suc i = n")
    case True
    then show ?thesis using L by auto
  next
    case False
    then have "i < n - 1" using i by simp
    then show ?thesis using False by simp
  qed
  have head: "headpipe st' = H"
    using st' sh H by (auto simp: shape_def)
  have tail: "tailpipe st' = (Suc i = n \<and> 1 < n \<and> \<not> L)"
    using st' sh i L by (auto simp: shape_def)
  have new: "pid p = length ?ps \<and> returncode p = None \<and>
      stdin_arg p = (if length ?ps = 0 then (if H then PIPE else Inherit)
                     else File (StdoutPipe (length ?ps - 1))) \<and>
      proc_stdin p = (if length ?ps = 0 \<and> H then Some (StdinPipe 0) else None) \<and>
      stdout_arg p = (if Suc i = n \<and> L then Inherit else PIPE) \<and>
      proc_stdout p = (if Suc i = n \<and> L then None else Some (StdoutPipe (length ?ps)))"
  proof -
    have "Popen w (length ?ps) (expandvars (split_words c) kw)
            (if ?ps = [] then (if H then PIPE else Inherit)
             else File (StdoutPipe (length ?ps - 1)))
            (if Suc i = n \<and> L then Inherit else PIPE) (kw ''_cwd'') (kw ''_env'') = Inr p"
      using pop by (simp only: rin rout)
    from Popen_Inr [OF this] have
      "pid p = length ?ps" "returncode p = None"
      "stdin_arg p = (if ?ps = [] then (if H then PIPE else Inherit)
                      else File (StdoutPipe (length ?ps - 1)))"
      "stdout_arg p = (if Suc i = n \<and> L then Inherit else PIPE)"
      "proc_stdin p = (if stdin_arg p = PIPE then Some (StdinPipe (length ?ps)) else None)"
      "proc_stdout p = (if stdout_arg p = PIPE then Some (StdoutPipe (length ?ps)) else None)"
      by simp_all
    then show ?thesis by auto
  qed
  have "\<forall>k<length (?ps @ [p]).
         pid ((?ps @ [p]) ! k) = k \<and>
         returncode ((?ps @ [p]) ! k) = None \<and>
         stdin_arg ((?ps @ [p]) ! k) =
           (if k = 0 then (if H then PIPE else Inherit) else File (StdoutPipe (k - 1))) \<and>
         proc_stdin ((?ps @ [p]) ! k) = (if k = 0 \<and> H then Some (StdinPipe 0) else None) \<and>
         stdout_arg ((?ps @ [p]) ! k) =
           (if Suc k = length (?ps @ [p]) \<and> Suc i = n \<and> L then Inherit else PIPE) \<and>
         proc_stdout ((?ps @ [p]) ! k) =
           (if Suc k = length (?ps @ [p]) \<and> Suc i = n \<and> L then None else Some (StdoutPipe k))"
  proof (intro allI impI)
    fix k assume "k < length (?ps @ [p])"
    then consider "k < length ?ps" | "k = length ?ps" by fastforce
    then show "pid ((?ps @ [p]) ! k) = k \<and>
         returncode ((?ps @ [p]) ! k) = None \<and>
         stdin_arg ((?ps @ [p]) ! k) =
           (if k = 0 then (if H then PIPE else Inherit) else File (StdoutPipe (k - 1))) \<and>
         proc_stdin ((?ps @ [p]) ! k) = (if k = 0 \<and> H then Some (StdinPipe 0) else None) \<and>
         stdout_arg ((?ps @ [p]) ! k) =
           (if Suc k = length (?ps @ [p]) \<and> Suc i = n \<and> L then Inherit else PIPE) \<and>
         proc_stdout ((?ps @ [p]) ! k) =
           (if Suc k = length (?ps @ [p]) \<and> Suc i = n \<and> L then None else Some (StdoutPipe k))"
    proof cases
      case 1
      then show ?thesis using each by (simp add: nth_append)
    next
      case 2
      then show ?thesis using new by (simp add: nth_append)
    qed
  qed
  then show ?thesis
    unfolding shape_def using head tail st' by simp
qed

lemma sh_loop_shape:
  assumes "sh_loop w kw n (zip [i..<i + length cs] cs) st = Inr st'"
    and "shape n H L i st" and "i + length cs = n"
    and "i = 0 \<Longrightarrow> cs \<noteq> [] \<Longrightarrow> H = (split_words (hd cs) = [])"
    and "cs \<noteq> [] \<Longrightarrow> L = (split_words (last cs) \<noteq> [])"
  shows "shape n H L n st'"
  using assms
proof (induction cs arbitrary: i st)
  case Nil
  then show ?case by simp
next
  case (Cons c cs)
  from Cons.prems(1) obtain st1 where
    s1: "sh_step w kw n i c st = Inr st1" and
    l1: "sh_loop w kw n (zip [Suc i..<Suc i + length cs] cs) st1 = Inr st'"
    by (auto simp only: sh_loop_Cons split: sum.splits)
  have i: "i < n" using Cons.prems(3) by simp
  have H: "i = 0 \<Longrightarrow> H = (split_words c = [])"
    using Cons.prems(4) by simp
  have L: "L = (split_words c \<noteq> [])" if "Suc i = n"
  proof -
    have "Suc (i + length cs) = n" using Cons.prems(3) by simp
    with that have "length cs = 0" by linarith
    then have "cs = []" by simp
    then show ?thesis using Cons.prems(5) by simp
  qed
  have sh1: "shape n H L (Suc i) st1"
  proof (cases "split_words c = []")
    case True
    show ?thesis
      by (rule shape_step_empty [OF Cons.prems(2) i True _ _ s1]) (use True H L in auto)
  next
    case False
    show ?thesis
      by (rule shape_step_spawn [OF Cons.prems(2) i False _ _ s1]) (use False H L in auto)
  qed
  show ?case
  proof (rule Cons.IH [OF l1 sh1])
    show "Suc i + length cs = n" using Cons.prems(3) by simp
    show "Suc i = 0 \<Longrightarrow> cs \<noteq> [] \<Longrightarrow> H = (split_words (hd cs) = [])" by simp
    show "cs \<noteq> [] \<Longrightarrow> L = (split_words (last cs) \<noteq> [])"
      using Cons.prems(5) by simp
  qed
qed

lemma sh_build_shape:
  assumes "sh_build w pipeline kw = Inr st"
  shows "shape (length (str_split pipeline CHR ''|''))
           (split_words (hd (str_split pipeline CHR ''|'')) = [])
           (split_words (last (str_split pipeline CHR ''|'')) \<noteq> [])
           (length (str_split pipeline CHR ''|'')) st"
  by (rule sh_loop_shape [OF assms [unfolded sh_build_loop] shape_initial])
     (simp_all add: str_split_not_Nil)

lemma sh_build_args:
  assumes "sh_build w pipeline kw = Inr st"
  shows "map args (sh_procs st) =
           map (\<lambda>c. expandvars (split_words c) kw)
             (filter (\<lambda>c. split_words c \<noteq> []) (str_split pipeline CHR ''|''))"
  using sh_loop_args [OF assms [unfolded sh_build_loop]] by simp

lemma sh_build_stderr:
  assumes "sh_build w pipeline kw = Inr st"
  shows "stderr st =
           replicate (length (filter (\<lambda>(j, c). split_words c = [] \<and> j \<noteq> 0 \<and>
                                 j \<noteq> length (str_split pipeline CHR ''|'') - 1)
                        (enumerate_list (str_split pipeline CHR ''|'')))) warning"
  using sh_loop_stderr [OF assms [unfolded sh_build_loop]] by (simp add: enumerate_list_def)

lemma sh_step_error: "sh_step w kw n i c st = Inl e \<Longrightarrow> e = OSError"
  by (cases "split_words c = []")
     (auto simp: sh_step_empty sh_step_spawn split: sum.splits dest: Popen_Inl)

lemma sh_loop_error: "sh_loop w kw n cs st = Inl e \<Longrightarrow> e = OSError"
  by (induction w kw n cs st rule: sh_loop.induct)
     (auto split: sum.splits dest: sh_step_error)

lemma sh_build_error: "sh_build w pipeline kw = Inl e \<Longrightarrow> e = OSError"
  unfolding sh_build_def Let_def by (rule sh_loop_error)

lemma wait_procs_fresh:
  "\<forall>p\<in>set ps. returncode p = None \<Longrightarrow>
   wait_procs w ps waited =
     (map (\<lambda>p. p\<lparr>returncode := Some (exit_status w p)\<rparr>) ps, waited @ map pid ps)"
  by (induction ps arbitrary: waited) (simp_all add: proc_wait_def)

lemma wait_procs_length: "wait_procs w ps waited = (ps', waited') \<Longrightarrow> length ps' = length ps"
  by (induction ps arbitrary: waited ps') (auto simp: proc_wait_def split: option.splits prod.splits)

lemma wait_procs_done:
  "wait_procs w ps waited = (ps', waited') \<Longrightarrow> \<forall>p\<in>set ps'. returncode p \<noteq> None"
  by (induction ps arbitrary: waited ps') (auto simp: proc_wait_def split: option.splits prod.splits)

lemma wait_procs_again:
  "\<forall>p\<in>set ps. returncode p \<noteq> None \<Longrightarrow> wait_procs w ps waited = (ps, waited)"
  by (induction ps arbitrary: waited) (auto simp: proc_wait_def split: option.splits)

lemma shape_fresh: "shape n H L i st \<Longrightarrow> \<forall>p\<in>set (sh_procs st). returncode p = None"
  by (auto simp: shape_def in_set_conv_nth)

lemma shape_pids: "shape n H L i st \<Longrightarrow> map pid (sh_procs st) = [0..<length (sh_procs st)]"
  by (rule nth_equalityI) (auto simp: shape_def)

lemma last_filter_keep: "xs \<noteq> [] \<Longrightarrow> P (last xs) \<Longrightarrow> last (filter P xs) = last xs"
  by (induction xs rule: rev_induct) auto

lemma sh_build_last_args:
  assumes b: "sh_build w pipeline kw = Inr st"
    and l: "split_words (last (str_split pipeline CHR ''|'')) \<noteq> []"
  shows "sh_procs st \<noteq> []"
    and "args (last (sh_procs st)) = expandvars (split_words (last (str_split pipeline CHR ''|''))) kw"
proof -
  let ?cs = "str_split pipeline CHR ''|''"
  let ?live = "filter (\<lambda>c. split_words c \<noteq> []) ?cs"
  have "last ?cs \<in> set ?cs" by (simp add: str_split_not_Nil)
  then have live: "?live \<noteq> []" using l by (auto simp: filter_empty_conv)
  have m: "map args (sh_procs st) = map (\<lambda>c. expandvars (split_words c) kw) ?live"
    by (rule sh_build_args [OF b])
  from m live show ne: "sh_procs st \<noteq> []" by auto
  have "args (last (sh_procs st)) = last (map args (sh_procs st))"
    using ne by (simp add: last_map)
  also have "\<dots> = expandvars (split_words (last ?live)) kw"
    unfolding m using live by (simp add: last_map)
  also have "last ?live = last ?cs"
    using l by (simp add: last_filter_keep str_split_not_Nil)
  finally show "args (last (sh_procs st)) = expandvars (split_words (last ?cs)) kw" .
qed

lemmas sh_build_eval = sh_build_def str_split_def enumerate_list_def sh_step_def split_words_def
  isspace_def expandvars_def startswith_def get_def Popen_def as_redirect_def

section \<open>Blocking mode\<close>

lemma sh_build_false_true:
  "sh_build example_os ''false | true'' Map.empty =
     Inr \<lparr>sh_procs =
        [\<lparr>pid = 0, args = [''false''], stdin_arg = Inherit, stdout_arg = PIPE,
            cwd = None, env = None, proc_stdin = None,
            proc_stdout = Some (StdoutPipe 0), returncode = None\<rparr>,
         \<lparr>pid = 1, args = [''true''], stdin_arg = File (StdoutPipe 0),
            stdout_arg = Inherit, cwd = None, env = None, proc_stdin = None,
            proc_stdout = None, returncode = None\<rparr>],
        headpipe = False, tailpipe = False, stderr = []\<rparr>"
  by (simp add: sh_build_eval example_os_def)

text \<open>
  C2. When neither the first nor the last command of the pipeline string is empty and
  every process could be created, \<open>sh\<close> waits for every process in the order of the
  pipeline and returns the exit status of the last process, the one of the last command,
  whatever the exit statuses of the processes before it.
\<close>

theorem sh_blocking_last_status:
  assumes "split_words (hd (str_split pipeline CHR ''|'')) \<noteq> []"
    and "split_words (last (str_split pipeline CHR ''|'')) \<noteq> []"
    and "sh_build w pipeline kw = Inr st"
  shows "sh w pipeline kw =
           Inr \<lparr>retval = ExitCode (Some (exit_status w (last (sh_procs st)))),
                printed = stderr st, waited_for = map pid (sh_procs st)\<rparr> \<and>
         sh_procs st \<noteq> [] \<and>
         map pid (sh_procs st) = [0..<length (sh_procs st)] \<and>
         args (last (sh_procs st)) =
           expandvars (split_words (last (str_split pipeline CHR ''|''))) kw"
proof -
  note sh = sh_build_shape [OF assms(3)]
  have flags: "\<not> headpipe st" "\<not> tailpipe st"
    using sh assms(1,2) by (simp_all add: shape_def)
  note ne = sh_build_last_args(1) [OF assms(3,2)]
  have "wait_procs w (sh_procs st) [] =
          (map (\<lambda>p. p\<lparr>returncode := Some (exit_status w p)\<rparr>) (sh_procs st),
           [] @ map pid (sh_procs st))"
    by (rule wait_procs_fresh [OF shape_fresh [OF sh]])
  then have "sh w pipeline kw =
           Inr \<lparr>retval = ExitCode (Some (exit_status w (last (sh_procs st)))),
                printed = stderr st, waited_for = map pid (sh_procs st)\<rparr>"
    using flags ne assms(3) by (simp add: sh_def last_map)
  then show ?thesis
    using ne shape_pids [OF sh] sh_build_last_args(2) [OF assms(3,2)] by simp
qed

theorem sh_blocking_last_status_witness:
  "split_words (hd (str_split ''false | true'' CHR ''|'')) \<noteq> [] \<and>
   split_words (last (str_split ''false | true'' CHR ''|'')) \<noteq> [] \<and>
   sh example_os ''false | true'' Map.empty =
     Inr \<lparr>retval = ExitCode (Some 0), printed = [], waited_for = [0, 1]\<rparr>"
proof -
  have h1: "split_words (hd (str_split ''false | true'' CHR ''|'')) \<noteq> []"
    by (simp add: str_split_def split_words_def isspace_def)
  have h2: "split_words (last (str_split ''false | true'' CHR ''|'')) \<noteq> []"
    by (simp add: str_split_def split_words_def isspace_def)
  have e: "exit_status example_os p = (if args p = [''true''] then 0 else 1)" for p
    by (simp add: example_os_def)
  from sh_blocking_last_status [OF h1 h2 sh_build_false_true]
  have "sh example_os ''false | true'' Map.empty =
          Inr \<lparr>retval = ExitCode (Some 0), printed = [], waited_for = [0, 1]\<rparr>"
    by (simp add: e)
  with h1 h2 show ?thesis by blast
qed

section \<open>The empty pipeline string\<close>

text \<open>
  C3, as the code has it. For the empty pipeline string the only command has index 0:
  the first test of the chain \<open>if i == 0 ... elif i == len(commands) - 1\<close> applies,
  so \<open>headpipe\<close> is set, \<open>tailpipe\<close> is not, and no process is created.
\<close>

theorem sh_build_empty_string:
  "sh_build w '''' kw = Inr \<lparr>sh_procs = [], headpipe = True, tailpipe = False, stderr = []\<rparr>"
  by (simp add: sh_build_def str_split_def enumerate_list_def sh_step_def split_words_def)

text \<open>The claim C3 as stated fails: \<open>tailpipe\<close> is not set for the empty string.\<close>

theorem sh_build_empty_string_counterexample:
  "map_sum id tailpipe (sh_build example_os '''' Map.empty) = Inr False"
  by (simp add: sh_build_def str_split_def enumerate_list_def sh_step_def split_words_def)

text \<open>
  C4. On the empty string \<open>sh\<close> builds a \<open>Pipeline\<close> from the empty list of
  processes, and \<open>procs[0]\<close> in its constructor raises \<open>IndexError\<close>.
\<close>

theorem sh_empty_string_raises: "sh w '''' kw = Inl IndexError"
  by (simp add: sh_def sh_build_def str_split_def enumerate_list_def sh_step_def
        split_words_def Pipeline_def)

text \<open>
  C7. On the pipeline string \<open>|\<close> both \<open>headpipe\<close> and \<open>tailpipe\<close> are set, and
  yet no pipeline object is returned: the constructor raises \<open>IndexError\<close> on the
  empty list of processes.
\<close>

theorem sh_lone_pipe_no_handle:
  "sh_build w ''|'' kw = Inr \<lparr>sh_procs = [], headpipe = True, tailpipe = True, stderr = []\<rparr> \<and>
   sh w ''|'' kw = Inl IndexError"
  by (simp add: sh_def sh_build_def str_split_def enumerate_list_def sh_step_def
        split_words_def Pipeline_def)

section \<open>Reserved names\<close>

text \<open>
  C5, as the code has it. \<open>expandvars\<close> makes no difference for names starting with
  \<open>_\<close>: the word \<open>$_name\<close> is replaced by what \<open>_name\<close> is bound to, like any
  other variable.
\<close>

theorem expandvars_underscore:
  "expandvars [CHR ''$'' # CHR ''_'' # name] kw =
     (case kw (CHR ''_'' # name) of
        None \<Rightarrow> ['''']
      | Some (Str s) \<Rightarrow> [s]
      | Some (Seq vs) \<Rightarrow> vs)"
  by (simp add: expandvars_Cons expandvars_Nil startswith_def)

text \<open>The claim C5 as stated fails: \<open>$_cwd\<close> is replaced by the value of \<open>_cwd\<close>.\<close>

theorem expandvars_underscore_counterexample:
  "expandvars [''$_cwd''] [''_cwd'' \<mapsto> Str ''/tmp''] = [''/tmp'']"
  by (simp add: expandvars_def startswith_def get_def)

section \<open>Waiting twice\<close>

lemma wait_procs_result:
  "wait_procs w ps waited =
     (map (\<lambda>p. case returncode p of
                  None \<Rightarrow> p\<lparr>returncode := Some (exit_status w p)\<rparr>
                | Some rc \<Rightarrow> p) ps,
      waited @ map pid (filter (\<lambda>p. returncode p = None) ps))"
  by (induction ps arbitrary: waited) (auto simp: proc_wait_def split: option.splits)

text \<open>
  C9. On a pipeline object, which has at least one process since its constructor raises
  otherwise, the first \<open>ok\<close> waits, in order, for exactly the processes not yet waited
  for, stores the exit status of each of them, and returns whether the exit status of the
  last process is 0. Afterwards every process has its \<open>returncode\<close>, and a second
  \<open>ok\<close> raises nothing, waits for no process, leaves the object as it is and returns
  the same truth value, read from the stored status of the last process.
\<close>

theorem ok_twice:
  assumes "procs self \<noteq> []"
  shows "ok w self waited =
           (Inr ((case returncode (last (procs self)) of
                    None \<Rightarrow> exit_status w (last (procs self))
                  | Some rc \<Rightarrow> rc) = 0),
            self\<lparr>procs := map (\<lambda>p. case returncode p of
                                      None \<Rightarrow> p\<lparr>returncode := Some (exit_status w p)\<rparr>
                                    | Some rc \<Rightarrow> p) (procs self)\<rparr>,
            waited @ map pid (filter (\<lambda>p. returncode p = None) (procs self))) \<and>
         (\<exists>b self' waited'.
            ok w self waited = (Inr b, self', waited') \<and>
            ok w self' waited' = (Inr b, self', waited') \<and>
            b = (returncode (last (procs self')) = Some 0) \<and>
            None \<notin> set (map returncode (procs self')))"
proof -
  let ?reap = "\<lambda>p. case returncode p of
                      None \<Rightarrow> p\<lparr>returncode := Some (exit_status w p)\<rparr>
                    | Some rc \<Rightarrow> p"
  let ?ps = "map ?reap (procs self)"
  let ?waited' = "waited @ map pid (filter (\<lambda>p. returncode p = None) (procs self))"
  let ?self' = "self\<lparr>procs := ?ps\<rparr>"
  let ?b = "(case returncode (last (procs self)) of
               None \<Rightarrow> exit_status w (last (procs self))
             | Some rc \<Rightarrow> rc) = 0"
  have wp: "wait_procs w (procs self) waited = (?ps, ?waited')"
    by (rule wait_procs_result)
  have ne: "?ps \<noteq> []" using assms by simp
  have tail: "returncode (last ?ps) =
                Some (case returncode (last (procs self)) of
                        None \<Rightarrow> exit_status w (last (procs self))
                      | Some rc \<Rightarrow> rc)"
    using assms by (simp add: last_map split: option.split)
  have first: "ok w self waited = (Inr ?b, ?self', ?waited')"
    using wp ne tail by (simp add: ok_def wait_def pipeline_returncode_def)
  have reaped: "\<forall>p\<in>set ?ps. returncode p \<noteq> None"
    by (rule wait_procs_done [OF wp])
  have again: "wait_procs w ?ps ?waited' = (?ps, ?waited')"
    by (rule wait_procs_again [OF reaped])
  have second: "ok w ?self' ?waited' = (Inr ?b, ?self', ?waited')"
    using again ne tail by (simp add: ok_def wait_def pipeline_returncode_def)
  have b: "?b = (returncode (last (procs ?self')) = Some 0)"
    using tail by simp
  have all: "None \<notin> set (map returncode (procs ?self'))"
    using reaped by auto
  from first second b all show ?thesis by blast
qed

theorem ok_twice_witness:
  "procs \<lparr>procs = [\<lparr>pid = 0, args = [''false''], stdin_arg = PIPE, stdout_arg = PIPE,
                     cwd = None, env = None, proc_stdin = Some (StdinPipe 0),
                     proc_stdout = Some (StdoutPipe 0), returncode = None\<rparr>,
                   \<lparr>pid = 1, args = [''true''], stdin_arg = File (StdoutPipe 0),
                     stdout_arg = Inherit, cwd = None, env = None, proc_stdin = None,
                     proc_stdout = None, returncode = None\<rparr>],
          stdin = Some (StdinPipe 0), stdout = None\<rparr> \<noteq> [] \<and>
   ok example_os
     \<lparr>procs = [\<lparr>pid = 0, args = [''false''], stdin_arg = PIPE, stdout_arg = PIPE,
                 cwd = None, env = None, proc_stdin = Some (StdinPipe 0),
                 proc_stdout = Some (StdoutPipe 0), returncode = None\<rparr>,
               \<lparr>pid = 1, args = [''true''], stdin_arg = File (StdoutPipe 0),
                 stdout_arg = Inherit, cwd = None, env = None, proc_stdin = None,
                 proc_stdout = None, returncode = None\<rparr>],
      stdin = Some (StdinPipe 0), stdout = None\<rparr> [] =
     (Inr True,
      \<lparr>procs = [\<lparr>pid = 0, args = [''false''], stdin_arg = PIPE, stdout_arg = PIPE,
                 cwd = None, env = None, proc_stdin = Some (StdinPipe 0),
                 proc_stdout = Some (StdoutPipe 0), returncode = Some 1\<rparr>,
               \<lparr>pid = 1, args = [''true''], stdin_arg = File (StdoutPipe 0),
                 stdout_arg = Inherit, cwd = None, env = None, proc_stdin = None,
                 proc_stdout = None, returncode = Some 0\<rparr>],
      stdin = Some (StdinPipe 0), stdout = None\<rparr>,
      [0, 1]) \<and>
   ok example_os
     \<lparr>procs = [\<lparr>pid = 0, args = [''false''], stdin_arg = PIPE, stdout_arg = PIPE,
                 cwd = None, env = None, proc_stdin = Some (StdinPipe 0),
                 proc_stdout = Some (StdoutPipe 0), returncode = Some 1\<rparr>,
               \<lparr>pid = 1, args = [''true''], stdin_arg = File (StdoutPipe 0),
                 stdout_arg = Inherit, cwd = None, env = None, proc_stdin = None,
                 proc_stdout = None, returncode = Some 0\<rparr>],
      stdin = Some (StdinPipe 0), stdout = None\<rparr> [0, 1] =
     (Inr True,
      \<lparr>procs = [\<lparr>pid = 0, args = [''false''], stdin_arg = PIPE, stdout_arg = PIPE,
                 cwd = None, env = None, proc_stdin = Some (StdinPipe 0),
                 proc_stdout = Some (StdoutPipe 0), returncode = Some 1\<rparr>,
               \<lparr>pid = 1, args = [''true''], stdin_arg = File (StdoutPipe 0),
                 stdout_arg = Inherit, cwd = None, env = None, proc_stdin = None,
                 proc_stdout = None, returncode = Some 0\<rparr>],
      stdin = Some (StdinPipe 0), stdout = None\<rparr>,
      [0, 1])"
proof -
  let ?h = "\<lparr>procs = [\<lparr>pid = 0, args = [''false''], stdin_arg = PIPE, stdout_arg = PIPE,
                     cwd = None, env = None, proc_stdin = Some (StdinPipe 0),
                     proc_stdout = Some (StdoutPipe 0), returncode = None\<rparr>,
                   \<lparr>pid = 1, args = [''true''], stdin_arg = File (StdoutPipe 0),
                     stdout_arg = Inherit, cwd = None, env = None, proc_stdin = None,
                     proc_stdout = None, returncode = None\<rparr>],
          stdin = Some (StdinPipe 0), stdout = None\<rparr>"
  let ?h' = "\<lparr>procs = [\<lparr>pid = 0, args = [''false''], stdin_arg = PIPE, stdout_arg = PIPE,
                 cwd = None, env = None, proc_stdin = Some (StdinPipe 0),
                 proc_stdout = Some (StdoutPipe 0), returncode = Some 1\<rparr>,
               \<lparr>pid = 1, args = [''true''], stdin_arg = File (StdoutPipe 0),
                 stdout_arg = Inherit, cwd = None, env = None, proc_stdin = None,
                 proc_stdout = None, returncode = Some 0\<rparr>],
      stdin = Some (StdinPipe 0), stdout = None\<rparr>"
  have e: "exit_status example_os p = (if args p = [''true''] then 0 else 1)" for p
    by (simp add: example_os_def)
  have h: "procs ?h \<noteq> []" by simp
  have h': "procs ?h' \<noteq> []" by simp
  from ok_twice [OF h, of example_os "[]"]
  have first: "ok example_os ?h [] = (Inr True, ?h', [0, 1])"
    by (simp add: e)
  from ok_twice [OF h', of example_os "[0, 1]"]
  have second: "ok example_os ?h' [0, 1] = (Inr True, ?h', [0, 1])"
    by (simp add: e)
  from h first second show ?thesis by blast
qed

section \<open>Streaming mode\<close>

lemma shape_first:
  assumes "shape n H L i st" and "sh_procs st \<noteq> []"
  shows "pid (hd (sh_procs st)) = 0"
    and "proc_stdin (hd (sh_procs st)) = (if H then Some (StdinPipe 0) else None)"
proof -
  have "hd (sh_procs st) = sh_procs st ! 0" "0 < length (sh_procs st)"
    using assms(2) by (simp_all add: hd_conv_nth)
  then show "pid (hd (sh_procs st)) = 0"
    and "proc_stdin (hd (sh_procs st)) = (if H then Some (StdinPipe 0) else None)"
    using assms(1) by (simp_all add: shape_def)
qed

lemma shape_last:
  assumes "shape n H L n st" and "sh_procs st \<noteq> []"
  shows "pid (last (sh_procs st)) = length (sh_procs st) - 1"
    and "proc_stdout (last (sh_procs st)) =
           (if L then None else Some (StdoutPipe (length (sh_procs st) - 1)))"
proof -
  have "last (sh_procs st) = sh_procs st ! (length (sh_procs st) - 1)"
    "length (sh_procs st) - 1 < length (sh_procs st)"
    "Suc (length (sh_procs st) - 1) = length (sh_procs st)"
    using assms(2) by (simp_all add: last_conv_nth)
  then show "pid (last (sh_procs st)) = length (sh_procs st) - 1"
    and "proc_stdout (last (sh_procs st)) =
           (if L then None else Some (StdoutPipe (length (sh_procs st) - 1)))"
    using assms(1) by (simp_all add: shape_def)
qed

lemma sh_build_flags:
  assumes b: "sh_build w pipeline kw = Inr st" and ne: "sh_procs st \<noteq> []"
  shows "headpipe st = (split_words (hd (str_split pipeline CHR ''|'')) = [])"
    and "tailpipe st = (split_words (last (str_split pipeline CHR ''|'')) = [])"
proof -
  let ?cs = "str_split pipeline CHR ''|''"
  note sh = sh_build_shape [OF b]
  have n: "0 < length ?cs" using str_split_not_Nil [of pipeline] by simp
  show "headpipe st = (split_words (hd ?cs) = [])"
    using sh n by (simp add: shape_def)
  show "tailpipe st = (split_words (last ?cs) = [])"
  proof (cases "1 < length ?cs")
    case True
    then show ?thesis using sh by (simp add: shape_def)
  next
    case False
    then have "length ?cs = 1" using n by linarith
    then obtain c where cs: "?cs = [c]"
      by (cases ?cs) auto
    have "split_words c \<noteq> []"
      using sh_build_args [OF b] ne cs by auto
    then show ?thesis using sh cs False by (simp add: shape_def)
  qed
qed

lemma sh_build_sort:
  "sh_build example_os ''| sort | '' Map.empty =
     Inr \<lparr>sh_procs =
        [\<lparr>pid = 0, args = [''sort''], stdin_arg = PIPE, stdout_arg = PIPE,
            cwd = None, env = None, proc_stdin = Some (StdinPipe 0),
            proc_stdout = Some (StdoutPipe 0), returncode = None\<rparr>],
        headpipe = True, tailpipe = True, stderr = []\<rparr>"
  by (simp add: sh_build_eval example_os_def)

text \<open>
  C8. When \<open>sh\<close> returns a pipeline object, its \<open>stdin\<close> is a stream, the writable
  end of the pipe into the first process, exactly when \<open>headpipe\<close> was set, which is when
  the first command is empty; its \<open>stdout\<close> is a stream, the readable end of the pipe
  out of the last process, exactly when \<open>tailpipe\<close> was set, which is when the last
  command is empty. Otherwise the attribute is \<open>None\<close>.
\<close>

theorem sh_handle_streams:
  assumes "sh w pipeline kw = Inr out" and "retval out = Handle h"
  shows "\<exists>st. sh_build w pipeline kw = Inr st \<and> procs h = sh_procs st \<and>
           stdin h = proc_stdin (hd (procs h)) \<and>
           stdout h = proc_stdout (last (procs h)) \<and>
           stdin h = (if headpipe st then Some (StdinPipe (pid (hd (procs h)))) else None) \<and>
           stdout h = (if tailpipe st then Some (StdoutPipe (pid (last (procs h)))) else None) \<and>
           headpipe st = (split_words (hd (str_split pipeline CHR ''|'')) = []) \<and>
           tailpipe st = (split_words (last (str_split pipeline CHR ''|'')) = [])"
proof -
  from assms obtain st where b: "sh_build w pipeline kw = Inr st"
    and P: "Pipeline (sh_procs st) = Inr h"
    by (auto simp: sh_def split: sum.splits if_splits prod.splits)
  from P have ne: "sh_procs st \<noteq> []"
    and h: "procs h = sh_procs st" "stdin h = proc_stdin (sh_procs st ! 0)"
      "stdout h = proc_stdout (last (sh_procs st))"
    by (auto simp: Pipeline_def split: if_splits)
  note sh = sh_build_shape [OF b]
  note flags = sh_build_flags [OF b ne]
  have "stdin h = proc_stdin (hd (sh_procs st))"
    using h(2) ne by (simp add: hd_conv_nth)
  then show ?thesis
    using b h(1,3) flags shape_first [OF sh ne] shape_last [OF sh ne] by simp
qed

theorem sh_handle_streams_witness:
  "sh example_os ''| sort | '' Map.empty =
     Inr \<lparr>retval = Handle \<lparr>procs =
            [\<lparr>pid = 0, args = [''sort''], stdin_arg = PIPE, stdout_arg = PIPE,
               cwd = None, env = None, proc_stdin = Some (StdinPipe 0),
               proc_stdout = Some (StdoutPipe 0), returncode = None\<rparr>],
            stdin = Some (StdinPipe 0), stdout = Some (StdoutPipe 0)\<rparr>,
          printed = [], waited_for = []\<rparr> \<and>
   split_words (hd (str_split ''| sort | '' CHR ''|'')) = [] \<and>
   split_words (last (str_split ''| sort | '' CHR ''|'')) = []"
proof -
  let ?h = "\<lparr>procs =
            [\<lparr>pid = 0, args = [''sort''], stdin_arg = PIPE, stdout_arg = PIPE,
               cwd = None, env = None, proc_stdin = Some (StdinPipe 0),
               proc_stdout = Some (StdoutPipe 0), returncode = None\<rparr>],
            stdin = Some (StdinPipe 0), stdout = Some (StdoutPipe 0)\<rparr>"
  let ?out = "\<lparr>retval = Handle ?h, printed = [], waited_for = []\<rparr>"
  have r: "sh example_os ''| sort | '' Map.empty = Inr ?out"
    by (simp add: sh_def sh_build_sort Pipeline_def)
  have v: "retval ?out = Handle ?h"
    by simp
  from sh_handle_streams [OF r v] r show ?thesis
    by (auto simp: sh_build_sort)
qed

section \<open>Interior empty commands\<close>

lemma sh_step_ahead:
  assumes "ahead st st0"
  shows "rel_sum (=) ahead (sh_step w kw n i c st) (sh_step w kw n i c st0)"
proof (cases "split_words c = []")
  case True
  then show ?thesis using assms by (simp add: sh_step_empty ahead_def)
next
  case False
  let ?P = "Popen w (length (sh_procs st0)) (expandvars (split_words c) kw)
             (if sh_procs st0 \<noteq> [] then as_redirect (proc_stdout (last (sh_procs st0)))
              else if headpipe st0 then PIPE else Inherit)
             (if i < n - 1 then PIPE else Inherit) (kw ''_cwd'') (kw ''_env'')"
  have eq: "sh_procs st = sh_procs st0" "headpipe st = headpipe st0"
    using assms by (simp_all add: ahead_def)
  have s0: "sh_step w kw n i c st0 =
      (case ?P of Inl e \<Rightarrow> Inl e | Inr p \<Rightarrow> Inr (st0\<lparr>sh_procs := sh_procs st0 @ [p]\<rparr>))"
    by (rule sh_step_spawn [OF False])
  have s1: "sh_step w kw n i c st =
      (case ?P of Inl e \<Rightarrow> Inl e | Inr p \<Rightarrow> Inr (st\<lparr>sh_procs := sh_procs st0 @ [p]\<rparr>))"
    using sh_step_spawn [OF False, of w kw n i st] by (simp only: eq)
  show ?thesis
    unfolding s0 s1 using assms by (cases ?P) (simp_all add: ahead_def)
qed

lemma sh_loop_ahead:
  "ahead st st0 \<Longrightarrow> rel_sum (=) ahead (sh_loop w kw n cs st) (sh_loop w kw n cs st0)"
proof (induction cs arbitrary: st st0)
  case Nil
  then show ?case by simp
next
  case (Cons ic cs)
  obtain i c where ic: "ic = (i, c)" by (cases ic)
  note step = sh_step_ahead [OF Cons.prems, of w kw n i c]
  show ?case
  proof (cases "sh_step w kw n i c st")
    case (Inl e)
    then show ?thesis
      using step by (cases "sh_step w kw n i c st0") (simp_all add: ic)
  next
    case (Inr s)
    then obtain s0 where s0: "sh_step w kw n i c st0 = Inr s0" and "ahead s s0"
      using step by (cases "sh_step w kw n i c st0") simp_all
    then show ?thesis
      using Inr Cons.IH [of s s0] by (simp add: ic)
  qed
qed

lemma sh_step_shift:
  assumes "0 < i"
  shows "sh_step w kw (Suc n) (Suc i) c st = sh_step w kw n i c st"
proof -
  have a: "(Suc i = Suc n - 1) = (i = n - 1)" using assms by auto
  have b: "(Suc i < Suc n - 1) = (i < n - 1)" by auto
  have c: "Suc i \<noteq> 0" "i \<noteq> 0" using assms by simp_all
  show ?thesis
  proof (cases "split_words c = []")
    case True
    show ?thesis
      by (simp only: sh_step_empty [OF True] a c if_False)
  next
    case False
    show ?thesis
      by (simp only: sh_step_spawn [OF False] b)
  qed
qed

lemma sh_loop_shift:
  "0 < i \<Longrightarrow>
   sh_loop w kw (Suc n) (zip [Suc i..<Suc i + length cs] cs) st =
   sh_loop w kw n (zip [i..<i + length cs] cs) st"
proof (induction cs arbitrary: i st)
  case Nil
  show ?case by simp
next
  case (Cons c cs)
  have "\<And>st'. sh_loop w kw (Suc n) (zip [Suc (Suc i)..<Suc (Suc i) + length cs] cs) st' =
              sh_loop w kw n (zip [Suc i..<Suc i + length cs] cs) st'"
    by (rule Cons.IH) simp
  then show ?case
    by (simp only: sh_loop_Cons sh_step_shift [OF Cons.prems])
qed

lemma sh_step_early:
  assumes "Suc i < n"
  shows "sh_step w kw (Suc n) i c st = sh_step w kw n i c st"
proof -
  have a: "(i = Suc n - 1) = False" "(i = n - 1) = False" using assms by auto
  have b: "(i < Suc n - 1) = True" "(i < n - 1) = True" using assms by auto
  show ?thesis
  proof (cases "split_words c = []")
    case True
    show ?thesis
      by (simp only: sh_step_empty [OF True] a)
  next
    case False
    show ?thesis
      by (simp only: sh_step_spawn [OF False] b)
  qed
qed

lemma sh_loop_early:
  "i + length cs < n \<Longrightarrow>
   sh_loop w kw (Suc n) (zip [i..<i + length cs] cs) st =
   sh_loop w kw n (zip [i..<i + length cs] cs) st"
proof (induction cs arbitrary: i st)
  case Nil
  show ?case by simp
next
  case (Cons c cs)
  have i: "Suc i < n" using Cons.prems by simp
  have "\<And>st'. sh_loop w kw (Suc n) (zip [Suc i..<Suc i + length cs] cs) st' =
              sh_loop w kw n (zip [Suc i..<Suc i + length cs] cs) st'"
    by (rule Cons.IH) (use Cons.prems in simp)
  then show ?case
    by (simp only: sh_loop_Cons sh_step_early [OF i])
qed

lemma sh_loop_append:
  "sh_loop w kw n (zip [i..<i + length (as @ bs)] (as @ bs)) st =
     (case sh_loop w kw n (zip [i..<i + length as] as) st of
        Inl e \<Rightarrow> Inl e
      | Inr st1 \<Rightarrow> sh_loop w kw n (zip [i + length as..<i + length as + length bs] bs) st1)"
proof (induction as arbitrary: i st)
  case Nil
  show ?case by simp
next
  case (Cons c as)
  have "sh_loop w kw n (zip [i..<i + length ((c # as) @ bs)] ((c # as) @ bs)) st =
        (case sh_step w kw n i c st of
           Inl e \<Rightarrow> Inl e
         | Inr st' \<Rightarrow> sh_loop w kw n (zip [Suc i..<Suc i + length (as @ bs)] (as @ bs)) st')"
    using sh_loop_Cons [of w kw n i c "as @ bs" st] by simp
  then show ?case
    by (simp only: Cons.IH sh_loop_Cons) (simp split: sum.split)
qed

lemma sh_loop_erase:
  assumes A: "as \<noteq> []" and B: "bs \<noteq> []" and e: "split_words e = []"
  shows "rel_sum (=) ahead
           (sh_loop w kw (length (as @ e # bs))
              (zip [0..<0 + length (as @ e # bs)] (as @ e # bs)) st)
           (sh_loop w kw (length (as @ bs)) (zip [0..<0 + length (as @ bs)] (as @ bs)) st)"
proof -
  let ?n = "length (as @ bs)"
  let ?la = "length as"
  let ?pre = "sh_loop w kw ?n (zip [0..<0 + ?la] as) st"
  have len: "length (as @ e # bs) = Suc ?n" by simp
  have early: "sh_loop w kw (Suc ?n) (zip [0..<0 + ?la] as) st = ?pre"
    by (rule sh_loop_early) (use B in simp)
  have la: "0 < ?la" using A by simp
  have step: "sh_step w kw (Suc ?n) (0 + ?la) e st1 = Inr (st1\<lparr>stderr := stderr st1 @ [warning]\<rparr>)"
    for st1
    using A B by (simp add: sh_step_empty [OF e])
  have shift: "sh_loop w kw (Suc ?n) (zip [Suc (0 + ?la)..<Suc (0 + ?la) + length bs] bs) st' =
               sh_loop w kw ?n (zip [0 + ?la..<0 + ?la + length bs] bs) st'" for st'
    by (rule sh_loop_shift) (use la in simp)
  have "sh_loop w kw (length (as @ e # bs))
                (zip [0..<0 + length (as @ e # bs)] (as @ e # bs)) st =
        sh_loop w kw (Suc ?n) (zip [0..<0 + length (as @ e # bs)] (as @ e # bs)) st"
    by (simp only: len)
  also have "\<dots> =
      (case sh_loop w kw (Suc ?n) (zip [0..<0 + ?la] as) st of
         Inl x \<Rightarrow> Inl x
       | Inr st1 \<Rightarrow>
           sh_loop w kw (Suc ?n) (zip [0 + ?la..<0 + ?la + length (e # bs)] (e # bs)) st1)"
    by (rule sh_loop_append)
  also have "\<dots> =
      (case ?pre of
         Inl x \<Rightarrow> Inl x
       | Inr st1 \<Rightarrow> sh_loop w kw ?n (zip [0 + ?la..<0 + ?la + length bs] bs)
                      (st1\<lparr>stderr := stderr st1 @ [warning]\<rparr>))"
    by (simp only: early sh_loop_Cons step shift sum.case)
  finally have run1: "sh_loop w kw (length (as @ e # bs))
                (zip [0..<0 + length (as @ e # bs)] (as @ e # bs)) st =
              (case ?pre of
                 Inl x \<Rightarrow> Inl x
               | Inr st1 \<Rightarrow> sh_loop w kw ?n (zip [0 + ?la..<0 + ?la + length bs] bs)
                              (st1\<lparr>stderr := stderr st1 @ [warning]\<rparr>))" .
  have run2: "sh_loop w kw ?n (zip [0..<0 + length (as @ bs)] (as @ bs)) st =
              (case ?pre of
                 Inl x \<Rightarrow> Inl x
               | Inr st1 \<Rightarrow> sh_loop w kw ?n (zip [0 + ?la..<0 + ?la + length bs] bs) st1)"
    by (rule sh_loop_append)
  show ?thesis
  proof (cases ?pre)
    case (Inl x)
    then show ?thesis unfolding run1 run2 by simp
  next
    case (Inr st1)
    have "ahead (st1\<lparr>stderr := stderr st1 @ [warning]\<rparr>) st1"
      by (simp add: ahead_def)
    from sh_loop_ahead [OF this] show ?thesis
      unfolding run1 run2 Inr by simp
  qed
qed

lemma str_split_erase:
  assumes "CHR ''|'' \<notin> set e"
  shows "str_split (a @ ''|'' @ e @ ''|'' @ b) CHR ''|'' =
           str_split a CHR ''|'' @ e # str_split b CHR ''|''"
    and "str_split (a @ ''|'' @ b) CHR ''|'' = str_split a CHR ''|'' @ str_split b CHR ''|''"
proof -
  have "a @ ''|'' @ e @ ''|'' @ b = a @ CHR ''|'' # (e @ CHR ''|'' # b)" by simp
  then show "str_split (a @ ''|'' @ e @ ''|'' @ b) CHR ''|'' =
           str_split a CHR ''|'' @ e # str_split b CHR ''|''"
    by (simp only: str_split_append str_split_no_sep [OF assms]) simp
  have "a @ ''|'' @ b = a @ CHR ''|'' # b" by simp
  then show "str_split (a @ ''|'' @ b) CHR ''|'' = str_split a CHR ''|'' @ str_split b CHR ''|''"
    by (simp only: str_split_append)
qed

lemma sh_build_erase:
  assumes "CHR ''|'' \<notin> set e" and "split_words e = []"
  shows "rel_sum (=) ahead (sh_build w (a @ ''|'' @ e @ ''|'' @ b) kw)
           (sh_build w (a @ ''|'' @ b) kw)"
proof -
  note e = str_split_erase [OF assms(1), of a b]
  show ?thesis
    unfolding sh_build_loop [of w "a @ ''|'' @ e @ ''|'' @ b"] sh_build_loop [of w "a @ ''|'' @ b"]
      e(1) e(2)
    by (rule sh_loop_erase [OF str_split_not_Nil str_split_not_Nil assms(2)])
qed

lemma shape_wiring:
  assumes "shape n H L i st" and "Suc k < length (sh_procs st)"
  shows "proc_stdout (sh_procs st ! k) = Some (StdoutPipe (pid (sh_procs st ! k)))"
    and "stdin_arg (sh_procs st ! Suc k) = File (StdoutPipe (pid (sh_procs st ! k)))"
    and "stdout_arg (sh_procs st ! k) = PIPE"
proof -
  have k: "k < length (sh_procs st)" using assms(2) by simp
  from assms(1) k have "pid (sh_procs st ! k) = k"
    "proc_stdout (sh_procs st ! k) = Some (StdoutPipe k)" "stdout_arg (sh_procs st ! k) = PIPE"
    using assms(2) by (auto simp: shape_def)
  moreover from assms have "stdin_arg (sh_procs st ! Suc k) = File (StdoutPipe k)"
    by (auto simp: shape_def)
  ultimately show "proc_stdout (sh_procs st ! k) = Some (StdoutPipe (pid (sh_procs st ! k)))"
    and "stdin_arg (sh_procs st ! Suc k) = File (StdoutPipe (pid (sh_procs st ! k)))"
    and "stdout_arg (sh_procs st ! k) = PIPE"
    by simp_all
qed

lemma sh_retval_agree:
  assumes "sh_build w x kw = Inr st" and "sh_build w y kw = Inr st0"
    and "sh_procs st = sh_procs st0" and "headpipe st = headpipe st0"
    and "tailpipe st = tailpipe st0"
  shows "map_sum id (\<lambda>r. (retval r, waited_for r)) (sh w x kw) =
         map_sum id (\<lambda>r. (retval r, waited_for r)) (sh w y kw)"
  using assms by (simp add: sh_def split: sum.split prod.split)

lemma sh_build_a_b:
  "sh_build example_os ''a | b'' Map.empty =
     Inr \<lparr>sh_procs =
        [\<lparr>pid = 0, args = [''a''], stdin_arg = Inherit, stdout_arg = PIPE,
            cwd = None, env = None, proc_stdin = None,
            proc_stdout = Some (StdoutPipe 0), returncode = None\<rparr>,
         \<lparr>pid = 1, args = [''b''], stdin_arg = File (StdoutPipe 0),
            stdout_arg = Inherit, cwd = None, env = None, proc_stdin = None,
            proc_stdout = None, returncode = None\<rparr>],
        headpipe = False, tailpipe = False, stderr = []\<rparr>"
  by (simp add: sh_build_eval example_os_def)

lemma sh_build_a_bar_bar_b:
  "sh_build example_os ''a || b'' Map.empty =
     Inr \<lparr>sh_procs =
        [\<lparr>pid = 0, args = [''a''], stdin_arg = Inherit, stdout_arg = PIPE,
            cwd = None, env = None, proc_stdin = None,
            proc_stdout = Some (StdoutPipe 0), returncode = None\<rparr>,
         \<lparr>pid = 1, args = [''b''], stdin_arg = File (StdoutPipe 0),
            stdout_arg = Inherit, cwd = None, env = None, proc_stdin = None,
            proc_stdout = None, returncode = None\<rparr>],
        headpipe = False, tailpipe = False, stderr = [warning]\<rparr>"
  by (simp add: sh_build_eval example_os_def)

text \<open>
  C6. A pipeline string with an empty command that is neither the first nor the last has
  the form \<open>a|e|b\<close>, where \<open>e\<close> has no pipe character and no word. When every
  process of it could be created, the processes are those of the non-empty commands
  only, each warning printed is for one such empty command, the standard output of every
  process but the last is a pipe that is the standard input of the next process, and the
  loop ends as it does for \<open>a|b\<close>, with one more warning printed: the same processes,
  the same flags and, from \<open>sh\<close>, the same value.
\<close>

theorem sh_interior_empty_command:
  assumes "CHR ''|'' \<notin> set e" and "split_words e = []"
    and "sh_build w (a @ ''|'' @ e @ ''|'' @ b) kw = Inr st"
  shows "(\<exists>st0. sh_build w (a @ ''|'' @ b) kw = Inr st0 \<and>
            sh_procs st = sh_procs st0 \<and> headpipe st = headpipe st0 \<and>
            tailpipe st = tailpipe st0 \<and> stderr st = stderr st0 @ [warning]) \<and>
         map_sum id (\<lambda>r. (retval r, waited_for r)) (sh w (a @ ''|'' @ e @ ''|'' @ b) kw) =
           map_sum id (\<lambda>r. (retval r, waited_for r)) (sh w (a @ ''|'' @ b) kw) \<and>
         map args (sh_procs st) =
           map (\<lambda>c. expandvars (split_words c) kw)
             (filter (\<lambda>c. split_words c \<noteq> [])
                (str_split (a @ ''|'' @ e @ ''|'' @ b) CHR ''|'')) \<and>
         stderr st =
           replicate
             (length (filter (\<lambda>(j, c). split_words c = [] \<and> j \<noteq> 0 \<and>
                         j \<noteq> length (str_split (a @ ''|'' @ e @ ''|'' @ b) CHR ''|'') - 1)
                (enumerate_list (str_split (a @ ''|'' @ e @ ''|'' @ b) CHR ''|''))))
             warning \<and>
         (\<forall>k. Suc k < length (sh_procs st) \<longrightarrow>
            proc_stdout (sh_procs st ! k) = Some (StdoutPipe (pid (sh_procs st ! k))) \<and>
            stdin_arg (sh_procs st ! Suc k) = File (StdoutPipe (pid (sh_procs st ! k))))"
proof -
  from sh_build_erase [OF assms(1,2), of w a b kw] assms(3)
  obtain st0 where b0: "sh_build w (a @ ''|'' @ b) kw = Inr st0" and ah: "ahead st st0"
    by (cases "sh_build w (a @ ''|'' @ b) kw") simp_all
  from ah have eq: "sh_procs st = sh_procs st0" "headpipe st = headpipe st0"
    "tailpipe st = tailpipe st0" "stderr st = stderr st0 @ [warning]"
    by (simp_all add: ahead_def)
  have one: "\<exists>st0. sh_build w (a @ ''|'' @ b) kw = Inr st0 \<and>
            sh_procs st = sh_procs st0 \<and> headpipe st = headpipe st0 \<and>
            tailpipe st = tailpipe st0 \<and> stderr st = stderr st0 @ [warning]"
    using b0 eq by blast
  note two = sh_retval_agree [OF assms(3) b0 eq(1,2,3)]
  note three = sh_build_args [OF assms(3)]
  note four = sh_build_stderr [OF assms(3)]
  note sh = sh_build_shape [OF assms(3)]
  have five: "\<forall>k. Suc k < length (sh_procs st) \<longrightarrow>
            proc_stdout (sh_procs st ! k) = Some (StdoutPipe (pid (sh_procs st ! k))) \<and>
            stdin_arg (sh_procs st ! Suc k) = File (StdoutPipe (pid (sh_procs st ! k)))"
    using shape_wiring(1,2) [OF sh] by blast
  from one two three four five show ?thesis by (intro conjI)
qed

theorem sh_interior_empty_command_witness:
  "CHR ''|'' \<notin> set '''' \<and> split_words '''' = [] \<and>
   map_sum id sh_procs (sh_build example_os ''a || b'' Map.empty) =
     map_sum id sh_procs (sh_build example_os ''a | b'' Map.empty) \<and>
   map_sum id stderr (sh_build example_os ''a || b'' Map.empty) = Inr [warning] \<and>
   map_sum id stderr (sh_build example_os ''a | b'' Map.empty) = Inr [] \<and>
   map_sum id (\<lambda>r. (retval r, waited_for r)) (sh example_os ''a || b'' Map.empty) =
     map_sum id (\<lambda>r. (retval r, waited_for r)) (sh example_os ''a | b'' Map.empty)"
proof -
  have h1: "CHR ''|'' \<notin> set ''''" by simp
  have h2: "split_words '''' = []" by (simp add: split_words_def)
  have h3: "sh_build example_os (''a '' @ ''|'' @ '''' @ ''|'' @ '' b'') Map.empty =
     Inr \<lparr>sh_procs =
        [\<lparr>pid = 0, args = [''a''], stdin_arg = Inherit, stdout_arg = PIPE,
            cwd = None, env = None, proc_stdin = None,
            proc_stdout = Some (StdoutPipe 0), returncode = None\<rparr>,
         \<lparr>pid = 1, args = [''b''], stdin_arg = File (StdoutPipe 0),
            stdout_arg = Inherit, cwd = None, env = None, proc_stdin = None,
            proc_stdout = None, returncode = None\<rparr>],
        headpipe = False, tailpipe = False, stderr = [warning]\<rparr>"
    using sh_build_a_bar_bar_b by simp
  from sh_interior_empty_command [OF h1 h2 h3]
  have "map_sum id (\<lambda>r. (retval r, waited_for r)) (sh example_os ''a || b'' Map.empty) =
     map_sum id (\<lambda>r. (retval r, waited_for r)) (sh example_os ''a | b'' Map.empty)"
    by simp
  then show ?thesis
    using h1 h2 by (simp add: sh_build_a_bar_bar_b sh_build_a_b)
qed

section \<open>Which kind of value is returned\<close>

text \<open>
  When at least one process was created, \<open>sh\<close> returns a pipeline object exactly when
  the first or the last command is empty, and an exit status otherwise.
\<close>

lemma sh_returns_handle_iff:
  assumes b: "sh_build w pipeline kw = Inr st" and ne: "sh_procs st \<noteq> []"
  shows "(\<exists>out h. sh w pipeline kw = Inr out \<and> retval out = Handle h) =
           (split_words (hd (str_split pipeline CHR ''|'')) = [] \<or>
            split_words (last (str_split pipeline CHR ''|'')) = [])"
    and "(\<exists>out rc. sh w pipeline kw = Inr out \<and> retval out = ExitCode (Some rc)) =
           (split_words (hd (str_split pipeline CHR ''|'')) \<noteq> [] \<and>
            split_words (last (str_split pipeline CHR ''|'')) \<noteq> [])"
proof -
  note flags = sh_build_flags [OF b ne]
  note sh = sh_build_shape [OF b]
  have w: "wait_procs w (sh_procs st) [] =
          (map (\<lambda>p. p\<lparr>returncode := Some (exit_status w p)\<rparr>) (sh_procs st),
           [] @ map pid (sh_procs st))"
    by (rule wait_procs_fresh [OF shape_fresh [OF sh]])
  show "(\<exists>out h. sh w pipeline kw = Inr out \<and> retval out = Handle h) =
           (split_words (hd (str_split pipeline CHR ''|'')) = [] \<or>
            split_words (last (str_split pipeline CHR ''|'')) = [])"
    using b ne w flags by (auto simp: sh_def Pipeline_def)
  show "(\<exists>out rc. sh w pipeline kw = Inr out \<and> retval out = ExitCode (Some rc)) =
           (split_words (hd (str_split pipeline CHR ''|'')) \<noteq> [] \<and>
            split_words (last (str_split pipeline CHR ''|'')) \<noteq> [])"
    using b ne w flags by (auto simp: sh_def Pipeline_def last_map)
qed

end
